theory Spec2Isabelle
  imports Complex_Main "HOL-Library.Multiset"
begin

section \<open>EPP example scripts: data passed to and read from the goal-seek package\<close>

text \<open>
  The repository holds four example scripts that drive the external package
  \<^verbatim>\<open>epp_screening_model_v3\<close>. The scripts themselves contain the ACCU volume
  literals handed to the goal-seek helpers and the guards that decide which result blocks
  are printed. Python floats are modelled as \<^typ>\<open>real\<close> (the literals below are exact
  decimals), \<^verbatim>\<open>Optional[float]\<close> as \<^typ>\<open>real option\<close>.
\<close>

subsection \<open>ACCU volume literals (examples 02 and 03)\<close>

text \<open>
  Example 02's docstring: "Defines custom ACCU production volumes (27 annual values)";
  its comment: "for 27 years (Year 0 through Year 26)".
\<close>

definition period_count :: nat where
  "period_count = 27"

text \<open>\<^verbatim>\<open>custom_accu_volumes\<close>, example 02, lines 31-59.\<close>

definition custom_accu_volumes :: "real list" where
  "custom_accu_volumes =
    [0.0, 6750.0, 24605.5, 36785.2, 42933.1, 44904.4, 44481.5, 42799.0, 40511.9,
     37986.9, 35426.2, 32939.2, 30581.6, 28379.3, 26340.3, 24463.0, 22740.6, 21163.1,
     19719.8, 18399.5, 17191.5, 16085.5, 15072.1, 14142.5, 13288.8, 0.0, 0.0]"

text \<open>
  \<^verbatim>\<open>ACCU_SCENARIOS\<close>, example 03, lines 21-43: a dict literal, kept as an association
  list in insertion order.
\<close>

definition ACCU_SCENARIOS :: "(string \<times> real list) list" where
  "ACCU_SCENARIOS =
    [(''Conservative'',
      [0.0, 4500.0, 16403.7, 24523.4, 28622.1, 29936.3,
       29654.3, 28532.7, 27007.9, 25324.6, 23617.5, 21959.4,
       20387.8, 18919.5, 17560.2, 16308.7, 15160.4, 14108.7,
       13146.5, 12266.4, 11461.0, 10723.7, 10048.1, 9428.3,
       8859.2, 0.0, 0.0]),
     (''Baseline'',
      [0.0, 6000.0, 21871.6, 32697.9, 38162.8, 39915.0,
       39539.1, 38043.6, 36010.6, 33766.1, 31490.0, 29279.3,
       27183.7, 25226.0, 23413.6, 21744.9, 20213.9, 18811.6,
       17528.7, 16355.2, 15281.4, 14298.3, 13397.4, 12571.1,
       11812.3, 0.0, 0.0]),
     (''Aggressive'',
      [0.0, 6750.0, 24605.5, 36785.2, 42933.1, 44904.4,
       44481.5, 42799.0, 40511.9, 37986.9, 35426.2, 32939.2,
       30581.6, 28379.3, 26340.3, 24463.0, 22740.6, 21163.1,
       19719.8, 18399.5, 17191.5, 16085.5, 15072.1, 14142.5,
       13288.8, 0.0, 0.0])]"

subsection \<open>The goal-seek result as the examples read it\<close>

text \<open>
  The attributes of \<^verbatim>\<open>GoalSeekResult\<close> that examples 01 and 02 read. The two return
  attributes are compared with \<^verbatim>\<open>None\<close> and formatted as percentages, so they are
  optional floats.
\<close>

record GoalSeekResult =
  converged :: bool
  iterations :: nat
  function_calls :: nat
  solution :: real
  target_value :: real
  achieved_value :: real
  unlevered_return :: "real option"
  levered_return :: "real option"

text \<open>
  Python truth value of an optional float: \<^verbatim>\<open>None\<close> and \<^verbatim>\<open>0.0\<close> are falsy, every
  other number is truthy.
\<close>

fun truthy :: "real option \<Rightarrow> bool" where
  "truthy None = False"
| "truthy (Some x) = (x \<noteq> 0)"

text \<open>
  Example 01, lines 86-89. The output is the list of printed lines; a leading
  \<^verbatim>\<open>\n\<close> in a printed string is one empty line before it. \<open>pct\<close> stands for the float
  format \<^verbatim>\<open>:.4%\<close>.
  \<^verbatim>\<open>
    if result.unlevered_return is not None and result.levered_return is not None:
        print(f"\nFinancial Metrics:")
        print(f"  Unlevered Return (IRR): {result.unlevered_return:.4%}")
        print(f"  Levered Return (IRR): {result.levered_return:.4%}")
  \<close>
\<close>

definition financial_metrics_block :: "(real \<Rightarrow> string) \<Rightarrow> GoalSeekResult \<Rightarrow> string list" where
  "financial_metrics_block pct result =
    (if unlevered_return result \<noteq> None \<and> levered_return result \<noteq> None then
       ['''', ''Financial Metrics:'',
        ''  Unlevered Return (IRR): '' @ pct (the (unlevered_return result)),
        ''  Levered Return (IRR): '' @ pct (the (levered_return result))]
     else [])"

text \<open>
  Example 02, lines 104-107.
  \<^verbatim>\<open>
    if result.unlevered_return and result.levered_return:
        print(f"\nFinancial Returns:")
        print(f"  Unlevered IRR: {result.unlevered_return:.4%}")
        print(f"  Levered IRR: {result.levered_return:.4%}")
  \<close>
\<close>

definition financial_returns_block :: "(real \<Rightarrow> string) \<Rightarrow> GoalSeekResult \<Rightarrow> string list" where
  "financial_returns_block pct result =
    (if truthy (unlevered_return result) \<and> truthy (levered_return result) then
       ['''', ''Financial Returns:'',
        ''  Unlevered IRR: '' @ pct (the (unlevered_return result)),
        ''  Levered IRR: '' @ pct (the (levered_return result))]
     else [])"

section \<open>The bisection goal seek, modelled from the specification\<close>

text \<open>
  Modelled from the spec: \<^verbatim>\<open>GoalSeekSolver.solve\<close> lives in the external package
  \<^verbatim>\<open>epp_screening_model_v3\<close>; the repository only calls it (example 01, lines 59-65).
  What follows is section 4.3 of the specification for \<^verbatim>\<open>method = bisection\<close>, over the
  reals instead of floats:
  \<^item> \<open>bounds = (min, max)\<close> with \<open>min < max\<close>, else \<^verbatim>\<open>InvalidBoundsError\<close>;
  \<^item> \<open>f x\<close> is the target cell's value after one full evaluation with the input cell
    set to \<open>x\<close>; every evaluation counts as one function call;
  \<^item> the two boundary evaluations must bracket the target (the signs of
    \<open>f x - target\<close> differ, section 8 item 3), else \<^verbatim>\<open>NoBracketError\<close>;
  \<^item> each step evaluates the midpoint and keeps the half whose ends still differ in sign;
  \<^item> stop with \<open>converged = true\<close> when \<open>|f x - target| < absoluteTolerance\<close> or
    \<open>|x_new - x_old| < relativeTolerance * max(1, |x_old|)\<close>; stop with
    \<open>converged = false\<close> when \<open>iterations \<ge> maxIterations\<close>, returning the best
    iterate found;
  \<^item> the returned snapshot carries the iterate, the achieved value and the returns read
    off the same evaluation.
\<close>

datatype solve_error = InvalidBoundsError | NoBracketError

text \<open>
  Modelled from the spec: the part of one full model evaluation the solver reads, namely
  the target cell's value and the two returns (section 4.3, last but one item).
\<close>

record evaluation =
  target_cell_value :: real
  unlevered_irr :: "real option"
  levered_irr :: "real option"

text \<open>Modelled from the spec: the \<^verbatim>\<open>GoalSeekResult\<close> built from one evaluation.\<close>

definition snapshot :: "bool \<Rightarrow> nat \<Rightarrow> nat \<Rightarrow> real \<Rightarrow> real \<Rightarrow> evaluation \<Rightarrow> GoalSeekResult" where
  "snapshot conv its calls x target e =
    \<lparr>converged = conv, iterations = its, function_calls = calls, solution = x,
     target_value = target, achieved_value = target_cell_value e,
     unlevered_return = unlevered_irr e, levered_return = levered_irr e\<rparr>"

text \<open>
  Modelled from the spec: one halving of the bracket \<open>(a, b)\<close>, where \<open>ra\<close> is the
  residual \<open>f a - target\<close> and \<open>r\<close> the residual at the new point \<open>x\<close>.
\<close>

definition narrow :: "real \<Rightarrow> real \<Rightarrow> real \<Rightarrow> real \<Rightarrow> real \<Rightarrow> real \<times> real \<times> real" where
  "narrow a b ra x r = (if sgn r = sgn ra then (x, b, r) else (a, x, ra))"

text \<open>
  Modelled from the spec: the step test
  \<open>|x_new - x_old| < relativeTolerance * max(1, |x_old|)\<close>. No iterate precedes the first
  midpoint, so there the test cannot hold.
\<close>

definition step_below :: "real \<Rightarrow> real option \<Rightarrow> real \<Rightarrow> bool" where
  "step_below rtol x_old x_new =
     (case x_old of None \<Rightarrow> False | Some x \<Rightarrow> \<bar>x_new - x\<bar> < rtol * max 1 \<bar>x\<bar>)"

text \<open>
  Modelled from the spec: the best iterate found, read as the evaluated point whose value
  is nearest the target (the earlier point on a tie).
\<close>

definition better :: "real \<Rightarrow> real \<times> evaluation \<Rightarrow> real \<times> evaluation \<Rightarrow> real \<times> evaluation" where
  "better target old new =
     (if \<bar>target_cell_value (snd new) - target\<bar> < \<bar>target_cell_value (snd old) - target\<bar>
      then new else old)"

text \<open>
  Modelled from the spec: the iteration. The first argument after the tolerances is the
  number of iterations still allowed (\<open>maxIterations - iterations\<close>).
\<close>

fun bisect :: "(real \<Rightarrow> evaluation) \<Rightarrow> real \<Rightarrow> real \<Rightarrow> real \<Rightarrow> nat
    \<Rightarrow> real \<times> real \<times> real \<Rightarrow> real option \<Rightarrow> real \<times> evaluation \<Rightarrow> nat \<Rightarrow> nat
    \<Rightarrow> GoalSeekResult" where
  "bisect ev target atol rtol 0 br x_old best its calls =
     snapshot False its calls (fst best) target (snd best)"
| "bisect ev target atol rtol (Suc k) (a, b, ra) x_old best its calls =
     (let x_new = (a + b) / 2; e_new = ev x_new; r = target_cell_value e_new - target in
      if \<bar>r\<bar> < atol \<or> step_below rtol x_old x_new
      then snapshot True (Suc its) (Suc calls) x_new target e_new
      else bisect ev target atol rtol k (narrow a b ra x_new r) (Some x_new)
             (better target best (x_new, e_new)) (Suc its) (Suc calls))"

text \<open>Modelled from the spec: \<^verbatim>\<open>Solve\<close> with \<^verbatim>\<open>method = bisection\<close>.\<close>

definition solve_bisection :: "(real \<Rightarrow> evaluation) \<Rightarrow> real \<Rightarrow> real \<times> real \<Rightarrow> real \<Rightarrow> real \<Rightarrow> nat
    \<Rightarrow> solve_error + GoalSeekResult" where
  "solve_bisection ev target bounds atol rtol max_iterations =
    (case bounds of (lo, hi) \<Rightarrow>
      if \<not> lo < hi then Inl InvalidBoundsError
      else
        let e_lo = ev lo; e_hi = ev hi;
            r_lo = target_cell_value e_lo - target; r_hi = target_cell_value e_hi - target
        in if sgn r_lo = sgn r_hi then Inl NoBracketError
           else Inr (bisect ev target atol rtol max_iterations (lo, hi, r_lo) None
                       (better target (lo, e_lo) (hi, e_hi)) 0 2))"

text \<open>
  Modelled from the spec: the linear toy model of section 8 item 8,
  \<open>target = 2 * input + 3\<close>, with no returns.
\<close>

definition linear_toy_model :: "real \<Rightarrow> evaluation" where
  "linear_toy_model x = \<lparr>target_cell_value = 2 * x + 3, unlevered_irr = None, levered_irr = None\<rparr>"

section \<open>The dependency graph and its classification, modelled from the specification\<close>

text \<open>
  Modelled from the spec: the dependency graph is part of the external package; example 04
  only prints the counts of \<^verbatim>\<open>get_dependency_info\<close> (lines 34-38). What follows is
  sections 3 and 4.1 of the specification. A cell address is a pair (sheet, name). A sheet
  definition carries its name and the cells it reads and writes, each set given by some
  enumeration; the compute function plays no part in the graph and is left out. Sheets are
  identified by their position in the declaration order.
\<close>

type_synonym CellAddress = "string \<times> string"

record SheetDefinition =
  name :: string
  inputs :: "CellAddress list"
  outputs :: "CellAddress list"

text \<open>
  Modelled from the spec: the graph built from the sheet definitions, with an edge
  \<open>(i, j)\<close> when sheet \<open>i\<close> reads a cell written by sheet \<open>j\<close>; \<^verbatim>\<open>Build\<close> fails
  with \<^verbatim>\<open>UndeclaredReferenceError\<close> if a sheet reads a cell no sheet declares as output.
\<close>

datatype build_error = UndeclaredReferenceError

record DependencyGraph =
  sheet_names :: "string list"
  edges :: "(nat \<times> nat) list"

definition reads :: "SheetDefinition \<Rightarrow> SheetDefinition \<Rightarrow> bool" where
  "reads A B = (\<exists>c \<in> set (inputs A). c \<in> set (outputs B))"

definition undeclared_reference :: "SheetDefinition list \<Rightarrow> bool" where
  "undeclared_reference ss =
     (\<exists>A \<in> set ss. \<exists>c \<in> set (inputs A). \<not> (\<exists>B \<in> set ss. c \<in> set (outputs B)))"

definition Build :: "SheetDefinition list \<Rightarrow> build_error + DependencyGraph" where
  "Build ss =
     (if undeclared_reference ss then Inl UndeclaredReferenceError
      else Inr \<lparr>sheet_names = map name ss,
                edges = filter (\<lambda>(i, j). reads (ss ! i) (ss ! j))
                          (List.product [0..<length ss] [0..<length ss])\<rparr>)"

text \<open>
  Modelled from the spec: the strongly connected components. Two sheets share a group when
  each reaches the other along edges. The groups are listed by their first declared sheet,
  each group in declaration order.
\<close>

definition same_group :: "(nat \<times> nat) list \<Rightarrow> nat \<Rightarrow> nat \<Rightarrow> bool" where
  "same_group E i j = (i = j \<or> ((i, j) \<in> (set E)\<^sup>+ \<and> (j, i) \<in> (set E)\<^sup>+))"

fun components :: "(nat \<times> nat) list \<Rightarrow> nat list \<Rightarrow> nat list list" where
  "components E [] = []"
| "components E (i # rest) =
     (i # filter (same_group E i) rest)
       # components E (filter (\<lambda>j. \<not> same_group E i j) rest)"

text \<open>
  Modelled from the spec: a group is circular when it has more than one sheet or its one
  sheet reads its own output.
\<close>

definition circular :: "(nat \<times> nat) list \<Rightarrow> nat list \<Rightarrow> bool" where
  "circular E g = (1 < length g \<or> (\<exists>i \<in> set g. (i, i) \<in> set E))"

text \<open>
  Modelled from the spec: the linear order is the topological order of the condensed
  graph. A group has no unresolved predecessor when every edge out of it ends in the group
  itself or in a sheet already placed; among such groups the first in declaration order is
  processed next.
\<close>

definition ready :: "(nat \<times> nat) list \<Rightarrow> nat list \<Rightarrow> nat list \<Rightarrow> bool" where
  "ready E emitted g =
     (\<forall>(a, b) \<in> set E. a \<in> set g \<longrightarrow> b \<in> set g \<or> b \<in> set emitted)"

function kahn :: "(nat \<times> nat) list \<Rightarrow> nat list list \<Rightarrow> nat list \<Rightarrow> nat list list" where
  "kahn E pending emitted =
     (case find (ready E emitted) pending of
        None \<Rightarrow> []
      | Some g \<Rightarrow> g # kahn E (remove1 g pending) (emitted @ g))"
  by pat_completeness auto
termination
proof (relation "measure (\<lambda>(E, pending, emitted). length pending)")
  show "wf (measure (\<lambda>(E, pending, emitted). length pending))" by simp
next
  fix E :: "(nat \<times> nat) list" and pending emitted g
  assume "find (ready E emitted) pending = Some g"
  then have "g \<in> set pending" by (auto simp: find_Some_iff)
  then show "((E, remove1 g pending, emitted @ g), (E, pending, emitted))
      \<in> measure (\<lambda>(E, pending, emitted). length pending)"
    using length_pos_if_in_set [of g pending] by (simp add: length_remove1)
qed

declare kahn.simps [simp del]

definition linear_groups :: "DependencyGraph \<Rightarrow> nat list list" where
  "linear_groups G =
     kahn (edges G) (components (edges G) [0..<length (sheet_names G)]) []"

record classification =
  linear_order :: "string list list"
  circular_groups :: "string list list"

definition Classify :: "DependencyGraph \<Rightarrow> classification" where
  "Classify G =
     \<lparr>linear_order = map (map (\<lambda>i. sheet_names G ! i)) (linear_groups G),
      circular_groups = map (map (\<lambda>i. sheet_names G ! i))
         (filter (circular (edges G))
            (components (edges G) [0..<length (sheet_names G)]))\<rparr>"

text \<open>
  Two declarations of the same sheet: the same name and the same sets of cells read and
  written, whatever their enumeration.
\<close>

definition same_declaration :: "SheetDefinition \<Rightarrow> SheetDefinition \<Rightarrow> bool" where
  "same_declaration A B =
     (name A = name B \<and> set (inputs A) = set (inputs B) \<and> set (outputs A) = set (outputs B))"

text \<open>
  An example model of four sheets: Debt and Equity read each other, Debt also reads
  Revenue, and Costs stands alone. The second declaration list enumerates the cells Debt
  reads in another order and with a repetition.
\<close>

definition example_sheets :: "SheetDefinition list" where
  "example_sheets =
    [\<lparr>name = ''Debt'', inputs = [(''Equity'', ''cash''), (''Revenue'', ''sales'')],
      outputs = [(''Debt'', ''interest'')]\<rparr>,
     \<lparr>name = ''Equity'', inputs = [(''Debt'', ''interest'')],
      outputs = [(''Equity'', ''cash'')]\<rparr>,
     \<lparr>name = ''Revenue'', inputs = [], outputs = [(''Revenue'', ''sales'')]\<rparr>,
     \<lparr>name = ''Costs'', inputs = [], outputs = [(''Costs'', ''opex'')]\<rparr>]"

definition example_sheets_reordered :: "SheetDefinition list" where
  "example_sheets_reordered =
    [\<lparr>name = ''Debt'',
      inputs = [(''Revenue'', ''sales''), (''Equity'', ''cash''), (''Revenue'', ''sales'')],
      outputs = [(''Debt'', ''interest'')]\<rparr>,
     \<lparr>name = ''Equity'', inputs = [(''Debt'', ''interest'')],
      outputs = [(''Equity'', ''cash'')]\<rparr>,
     \<lparr>name = ''Revenue'', inputs = [], outputs = [(''Revenue'', ''sales'')]\<rparr>,
     \<lparr>name = ''Costs'', inputs = [], outputs = [(''Costs'', ''opex'')]\<rparr>]"

definition example_graph :: DependencyGraph where
  "example_graph =
     \<lparr>sheet_names = [''Debt'', ''Equity'', ''Revenue'', ''Costs''],
      edges = [(0, 1), (0, 2), (1, 0)]\<rparr>"

section \<open>Properties of the example scripts\<close>

text \<open>
  C9. Every ACCU volume list literal the examples pass to the goal-seek helpers, that is
  \<^verbatim>\<open>custom_accu_volumes\<close> of example 02 and each of the three lists of
  \<^verbatim>\<open>ACCU_SCENARIOS\<close> of example 03, has exactly 27 entries, the model's period count.
\<close>

theorem accu_volume_literals_have_27_entries:
  "length custom_accu_volumes = period_count
   \<and> map fst ACCU_SCENARIOS = [''Conservative'', ''Baseline'', ''Aggressive'']
   \<and> map (length \<circ> snd) ACCU_SCENARIOS = [period_count, period_count, period_count]
   \<and> period_count = 27"
  by (simp add: custom_accu_volumes_def ACCU_SCENARIOS_def period_count_def)

text \<open>
  C10. Example 02 prints its financial-returns block only when both
  \<^verbatim>\<open>result.unlevered_return\<close> and \<^verbatim>\<open>result.levered_return\<close> are truthy: with both
  defined it prints its four lines exactly when neither is 0.0, so a defined return equal
  to 0.0 (in either position) suppresses the block, as does \<^verbatim>\<open>None\<close>. Example 01
  prints its four lines whenever both values are not \<^verbatim>\<open>None\<close>, also when a value is
  0.0, and nothing when either is \<^verbatim>\<open>None\<close>.
\<close>

theorem financial_blocks_printed_lines:
  "financial_returns_block pct (r\<lparr>unlevered_return := Some x, levered_return := Some y\<rparr>)
     = (if x \<noteq> 0 \<and> y \<noteq> 0
        then ['''', ''Financial Returns:'',
              ''  Unlevered IRR: '' @ pct x, ''  Levered IRR: '' @ pct y]
        else [])
   \<and> financial_returns_block pct (r\<lparr>unlevered_return := Some 0, levered_return := Some y\<rparr>) = []
   \<and> financial_returns_block pct (r\<lparr>unlevered_return := Some x, levered_return := Some 0\<rparr>) = []
   \<and> financial_returns_block pct (r\<lparr>unlevered_return := None\<rparr>) = []
   \<and> financial_returns_block pct (r\<lparr>levered_return := None\<rparr>) = []
   \<and> (financial_returns_block pct r \<noteq> [])
       = (\<exists>u v. unlevered_return r = Some u \<and> levered_return r = Some v \<and> u \<noteq> 0 \<and> v \<noteq> 0)
   \<and> financial_metrics_block pct (r\<lparr>unlevered_return := Some x, levered_return := Some y\<rparr>)
     = ['''', ''Financial Metrics:'',
        ''  Unlevered Return (IRR): '' @ pct x, ''  Levered Return (IRR): '' @ pct y]
   \<and> financial_metrics_block pct (r\<lparr>unlevered_return := Some 0, levered_return := Some y\<rparr>)
     = ['''', ''Financial Metrics:'',
        ''  Unlevered Return (IRR): '' @ pct 0, ''  Levered Return (IRR): '' @ pct y]
   \<and> financial_metrics_block pct (r\<lparr>unlevered_return := Some x, levered_return := Some 0\<rparr>)
     = ['''', ''Financial Metrics:'',
        ''  Unlevered Return (IRR): '' @ pct x, ''  Levered Return (IRR): '' @ pct 0]
   \<and> financial_metrics_block pct (r\<lparr>unlevered_return := None\<rparr>) = []
   \<and> financial_metrics_block pct (r\<lparr>levered_return := None\<rparr>) = []
   \<and> (financial_metrics_block pct r \<noteq> [])
       = (unlevered_return r \<noteq> None \<and> levered_return r \<noteq> None)"
proof -
  have guard: "(financial_returns_block pct r \<noteq> [])
       = (\<exists>u v. unlevered_return r = Some u \<and> levered_return r = Some v \<and> u \<noteq> 0 \<and> v \<noteq> 0)"
    by (cases "unlevered_return r"; cases "levered_return r")
       (simp_all add: financial_returns_block_def)
  show ?thesis
    using guard by (simp add: financial_returns_block_def financial_metrics_block_def)
qed

section \<open>Properties of the modelled bisection\<close>

text \<open>
  C7. For the linear model whose target cell computes \<open>2 * input + 3\<close>, bounds
  \<open>[0, 1]\<close> and target value 4, the modelled bisection (any positive absolute tolerance,
  at least one iteration allowed) returns \<open>converged = true\<close> with solution \<open>0.5\<close> and
  achieved value \<open>4.0\<close>: the first midpoint is the root.
\<close>

theorem linear_toy_bisection_converges:
  assumes "0 < atol" and "0 < max_iterations"
  shows "solve_bisection linear_toy_model 4 (0, 1) atol rtol max_iterations =
     Inr \<lparr>converged = True, iterations = 1, function_calls = 3, solution = 1/2,
          target_value = 4, achieved_value = 4,
          unlevered_return = None, levered_return = None\<rparr>"
proof -
  obtain k where k: "max_iterations = Suc k" using assms(2) by (cases max_iterations) auto
  show ?thesis using assms(1)
    by (simp add: k solve_bisection_def linear_toy_model_def snapshot_def Let_def)
qed

theorem linear_toy_bisection_converges_witness:
  "(0::real) < 1/1000000 \<and> (0::nat) < 100
   \<and> solve_bisection linear_toy_model 4 (0, 1) (1/1000000) (1/1000000) 100 =
     Inr \<lparr>converged = True, iterations = 1, function_calls = 3, solution = 1/2,
          target_value = 4, achieved_value = 4,
          unlevered_return = None, levered_return = None\<rparr>"
proof -
  have a: "(0::real) < 1/1000000" and m: "(0::nat) < 100" by simp_all
  show ?thesis
    using linear_toy_bisection_converges [OF a m, of "1/1000000"] by simp
qed

section \<open>Properties of the modelled classification\<close>

subsection \<open>Groups are the classes of mutual reachability\<close>

lemma same_group_refl: "same_group E i i"
  by (simp add: same_group_def)

lemma same_group_sym: "same_group E i j \<Longrightarrow> same_group E j i"
  by (auto simp: same_group_def)

lemma same_group_trans: "same_group E i j \<Longrightarrow> same_group E j k \<Longrightarrow> same_group E i k"
  by (auto simp: same_group_def intro: trancl_trans)

lemma same_group_rtrancl: "same_group E i j \<Longrightarrow> (i, j) \<in> (set E)\<^sup>*"
  by (auto simp: same_group_def)

lemma components_mset: "mset (concat (components E xs)) = mset xs"
  by (induction E xs rule: components.induct) (simp_all add: union_commute)

lemma components_set: "\<Union> (set ` set (components E xs)) = set xs"
proof -
  have "set (concat (components E xs)) = set xs"
    using components_mset [of E xs] by (rule mset_eq_setD)
  then show ?thesis by simp
qed

lemma components_subset: "g \<in> set (components E xs) \<Longrightarrow> set g \<subseteq> set xs"
  using components_set [of E xs] by blast

lemma components_nonempty: "g \<in> set (components E xs) \<Longrightarrow> g \<noteq> []"
  by (induction E xs rule: components.induct) auto

lemma components_same:
  "g \<in> set (components E xs) \<Longrightarrow> a \<in> set g \<Longrightarrow> b \<in> set g \<Longrightarrow> same_group E a b"
proof (induction E xs rule: components.induct)
  case (1 E)
  then show ?case by simp
next
  case (2 E i rest)
  show ?case
  proof (cases "g = i # filter (same_group E i) rest")
    case True
    have "same_group E i a" "same_group E i b"
      using True "2.prems"(2,3) by (auto simp: same_group_refl)
    then show ?thesis by (blast intro: same_group_sym same_group_trans)
  next
    case False
    then show ?thesis using 2 by simp
  qed
qed

lemma components_apart:
  "g \<in> set (components E xs) \<Longrightarrow> h \<in> set (components E xs) \<Longrightarrow> a \<in> set g
     \<Longrightarrow> b \<in> set h \<Longrightarrow> same_group E a b \<Longrightarrow> g = h"
proof (induction E xs rule: components.induct)
  case (1 E)
  then show ?case by simp
next
  case (2 E i rest)
  let ?g0 = "i # filter (same_group E i) rest"
  let ?rest = "filter (\<lambda>j. \<not> same_group E i j) rest"
  have in0: "same_group E i c" if "c \<in> set ?g0" for c
    using that by (auto simp: same_group_refl)
  have out0: "\<not> same_group E i c" if "k \<in> set (components E ?rest)" "c \<in> set k" for c k
    using components_subset [OF that(1)] that(2) by auto
  consider "g = ?g0" "h = ?g0" | "g = ?g0" "h \<in> set (components E ?rest)"
    | "g \<in> set (components E ?rest)" "h = ?g0"
    | "g \<in> set (components E ?rest)" "h \<in> set (components E ?rest)"
    using "2.prems"(1,2) by auto
  then show ?case
  proof cases
    case 1
    then show ?thesis by simp
  next
    case 2
    have "same_group E i a" using in0 2(1) "2.prems"(3) by simp
    then have "same_group E i b" using "2.prems"(5) by (rule same_group_trans)
    then show ?thesis using out0 [OF 2(2) "2.prems"(4)] by simp
  next
    case 3
    have "same_group E i b" using in0 3(2) "2.prems"(4) by simp
    then have "same_group E i a"
      using "2.prems"(5) by (blast intro: same_group_sym same_group_trans)
    then show ?thesis using out0 [OF 3(1) "2.prems"(3)] by simp
  next
    case 4
    then show ?thesis using "2.IH" "2.prems"(3,4,5) by blast
  qed
qed

lemma components_sorted:
  "sorted_wrt (<) xs \<Longrightarrow> sorted_wrt (<) (map hd (components E xs))"
proof (induction E xs rule: components.induct)
  case (1 E)
  then show ?case by simp
next
  case (2 E i rest)
  let ?rest = "filter (\<lambda>j. \<not> same_group E i j) rest"
  have lt: "\<forall>y \<in> set rest. i < y" and srest: "sorted_wrt (<) rest"
    using "2.prems" by simp_all
  have "sorted_wrt (<) ?rest" using srest by (rule sorted_wrt_filter)
  then have IH: "sorted_wrt (<) (map hd (components E ?rest))" by (rule "2.IH")
  have "i < hd k" if "k \<in> set (components E ?rest)" for k
  proof -
    have "hd k \<in> set k" using components_nonempty [OF that] by simp
    then have "hd k \<in> set rest" using components_subset [OF that] by auto
    then show ?thesis using lt by simp
  qed
  then show ?case using IH by auto
qed

lemma components_each_sorted:
  "sorted_wrt (<) xs \<Longrightarrow> g \<in> set (components E xs) \<Longrightarrow> sorted_wrt (<) g"
proof (induction E xs rule: components.induct)
  case (1 E)
  then show ?case by simp
next
  case (2 E i rest)
  let ?rest = "filter (\<lambda>j. \<not> same_group E i j) rest"
  have lt: "\<forall>y \<in> set rest. i < y" and srest: "sorted_wrt (<) rest"
    using "2.prems"(1) by simp_all
  show ?case
  proof (cases "g = i # filter (same_group E i) rest")
    case True
    have "sorted_wrt (<) (filter (same_group E i) rest)" using srest by (rule sorted_wrt_filter)
    then show ?thesis using True lt by simp
  next
    case False
    then have gin: "g \<in> set (components E ?rest)" using "2.prems"(2) by simp
    have "sorted_wrt (<) ?rest" using srest by (rule sorted_wrt_filter)
    then show ?thesis using gin by (rule "2.IH")
  qed
qed

lemma mset_concat_cong:
  assumes "mset xss = mset yss"
  shows "mset (concat xss) = mset (concat yss)"
proof -
  have "mset (concat zs) = \<Sum>\<^sub># (image_mset mset (mset zs))" for zs :: "'a list list"
    by (induction zs) simp_all
  then show ?thesis using assms by simp
qed

subsection \<open>The ordering loop\<close>

lemma find_Some_mem: "find P xs = Some x \<Longrightarrow> x \<in> set xs \<and> P x"
  by (auto simp: find_Some_iff)

lemma kahn_subset: "set (kahn E p e) \<subseteq> set p"
proof (induction E p e rule: kahn.induct)
  case (1 E pending emitted)
  show ?case
  proof (cases "find (ready E emitted) pending")
    case None
    then show ?thesis by (simp add: kahn.simps)
  next
    case (Some g)
    have "g \<in> set pending" using find_Some_mem [OF Some] by simp
    moreover have "set (kahn E (remove1 g pending) (emitted @ g)) \<subseteq> set pending"
      by (rule subset_trans [OF "1.IH" [OF Some] set_remove1_subset])
    ultimately show ?thesis using Some by (simp add: kahn.simps [of E pending])
  qed
qed


lemma kahn_ready:
  "kahn E p e = pre @ g # post \<Longrightarrow> ready E (e @ concat pre) g"
proof (induction E p e arbitrary: pre rule: kahn.induct)
  case (1 E pending emitted)
  show ?case
  proof (cases "find (ready E emitted) pending")
    case None
    then show ?thesis using "1.prems" by (simp add: kahn.simps)
  next
    case (Some g0)
    have eq: "g0 # kahn E (remove1 g0 pending) (emitted @ g0) = pre @ g # post"
      using "1.prems" Some by (simp add: kahn.simps [of E pending])
    show ?thesis
    proof (cases pre)
      case Nil
      then have "g = g0" using eq by simp
      then show ?thesis using find_Some_mem [OF Some] Nil by simp
    next
      case (Cons p0 pre')
      have p0: "p0 = g0" using eq Cons by simp
      have tl: "kahn E (remove1 g0 pending) (emitted @ g0) = pre' @ g # post"
        using eq Cons by auto
      have "ready E ((emitted @ g0) @ concat pre') g" using "1.IH" [OF Some tl] .
      then show ?thesis using Cons p0 by simp
    qed
  qed
qed


lemma find_first:
  assumes "find P xs = Some x" "y \<in> set xs" "P y" "y \<noteq> x" "sorted_wrt (<) (map f xs)"
  shows "f x < f y"
proof -
  obtain i where i: "i < length xs" "x = xs ! i" "\<forall>j<i. \<not> P (xs ! j)"
    using assms(1) by (auto simp: find_Some_iff)
  obtain k where k: "k < length xs" "y = xs ! k"
    using assms(2) by (auto simp: in_set_conv_nth)
  have "\<not> k < i" using i(3) k(2) assms(3) by blast
  moreover have "k \<noteq> i" using assms(4) i(2) k(2) by blast
  ultimately have "i < k" by simp
  then have "map f xs ! i < map f xs ! k"
    using assms(5) k(1) by (simp add: sorted_wrt_iff_nth_less)
  then show ?thesis using i k by simp
qed


lemma sorted_hd_distinct:
  assumes "sorted_wrt (<) (map hd (p :: nat list list))"
  shows "distinct p"
proof -
  have "distinct (map hd p)" using assms by (simp add: strict_sorted_iff)
  then show ?thesis by (simp add: distinct_map)
qed

lemma sorted_wrt_remove1_hd:
  "sorted_wrt (<) (map hd (p :: nat list list)) \<Longrightarrow> sorted_wrt (<) (map hd (remove1 g p))"
proof (induction p)
  case Nil
  then show ?case by simp
next
  case (Cons x p)
  have "set (remove1 g p) \<subseteq> set p" by (rule set_remove1_subset)
  then show ?case using Cons by auto
qed

lemma kahn_tiebreak:
  "sorted_wrt (<) (map hd p) \<Longrightarrow> kahn E p e = pre @ g # post \<Longrightarrow> h \<in> set post
     \<Longrightarrow> ready E (e @ concat pre) h \<Longrightarrow> hd g < hd h"
proof (induction E p e arbitrary: pre rule: kahn.induct)
  case (1 E pending emitted)
  show ?case
  proof (cases "find (ready E emitted) pending")
    case None
    then show ?thesis using "1.prems"(2) by (simp add: kahn.simps)
  next
    case (Some g0)
    have eq: "g0 # kahn E (remove1 g0 pending) (emitted @ g0) = pre @ g # post"
      using "1.prems"(2) Some by (simp add: kahn.simps [of E pending])
    show ?thesis
    proof (cases pre)
      case Nil
      have g: "g = g0" and post: "post = kahn E (remove1 g0 pending) (emitted @ g0)"
        using eq Nil by auto
      have "set post \<subseteq> set (remove1 g0 pending)" unfolding post by (rule kahn_subset)
      then have hin: "h \<in> set (remove1 g0 pending)" using "1.prems"(3) by blast
      have dist: "distinct pending" using "1.prems"(1) by (rule sorted_hd_distinct)
      have hp: "h \<in> set pending" and hne: "h \<noteq> g0"
        using hin dist by simp_all
      have rdy: "ready E emitted h" using "1.prems"(4) Nil by simp
      have "hd g0 < hd h" using Some hp rdy hne "1.prems"(1) by (rule find_first)
      then show ?thesis using g by simp
    next
      case (Cons p0 pre')
      have p0: "p0 = g0" using eq Cons by simp
      have tl: "kahn E (remove1 g0 pending) (emitted @ g0) = pre' @ g # post"
        using eq Cons by auto
      have srt: "sorted_wrt (<) (map hd (remove1 g0 pending))"
        using "1.prems"(1) by (rule sorted_wrt_remove1_hd)
      have rdy: "ready E ((emitted @ g0) @ concat pre') h"
        using "1.prems"(4) Cons p0 by simp
      show ?thesis using "1.IH" [OF Some srt tl "1.prems"(3) rdy] .
    qed
  qed
qed

text \<open>
  The loop never stalls on groups that are classes of mutual reachability: the relation
  "some sheet of one group reads a sheet of another" is acyclic on them, so one of the
  pending groups has no edge into another pending group.
\<close>

lemma kahn_progress:
  assumes ne: "p \<noteq> []"
    and same: "\<forall>g\<in>set p. \<forall>a\<in>set g. \<forall>b\<in>set g. same_group E a b"
    and apart: "\<forall>g\<in>set p. \<forall>h\<in>set p. \<forall>a\<in>set g. \<forall>b\<in>set h. same_group E a b \<longrightarrow> g = h"
    and nonempty: "\<forall>g\<in>set p. g \<noteq> []"
    and cover: "\<forall>(a, b)\<in>set E. b \<in> set e \<or> (\<exists>g\<in>set p. b \<in> set g)"
  shows "\<exists>g\<in>set p. ready E e g"
proof -
  define Grel where
    "Grel = {(g, h). g \<in> set p \<and> h \<in> set p \<and> g \<noteq> h \<and> (\<exists>a\<in>set g. \<exists>b\<in>set h. (a, b) \<in> set E)}"
  have fin: "finite Grel"
  proof (rule finite_subset)
    show "Grel \<subseteq> set p \<times> set p" by (auto simp: Grel_def)
    show "finite (set p \<times> set p)" by simp
  qed
  have within: "(a, b) \<in> (set E)\<^sup>*" if "g \<in> set p" "a \<in> set g" "b \<in> set g" for g a b
  proof -
    have "same_group E a b" using same that by blast
    then show ?thesis by (rule same_group_rtrancl)
  qed
  have link: "(a, b) \<in> (set E)\<^sup>+"
    if "(a, a0) \<in> (set E)\<^sup>*" "(a0, b0) \<in> set E" "(b0, b) \<in> (set E)\<^sup>*" for a a0 b0 b
  proof -
    have "(a, b0) \<in> (set E)\<^sup>+" using that(1,2) by (rule rtrancl_into_trancl1)
    then show ?thesis using that(3) by (rule trancl_rtrancl_trancl)
  qed
  have reach: "g \<in> set p \<and> h \<in> set p \<and> (\<forall>a\<in>set g. \<forall>b\<in>set h. (a, b) \<in> (set E)\<^sup>+)"
    if "(g, h) \<in> Grel\<^sup>+" for g h
    using that
  proof (induction rule: trancl_induct)
    case (base y)
    then obtain a0 b0 where gp: "g \<in> set p" and yp: "y \<in> set p"
      and a0: "a0 \<in> set g" and b0: "b0 \<in> set y" and edge: "(a0, b0) \<in> set E"
      by (auto simp: Grel_def)
    have "(a, b) \<in> (set E)\<^sup>+" if "a \<in> set g" "b \<in> set y" for a b
      using within [OF gp that(1) a0] edge within [OF yp b0 that(2)] by (rule link)
    then show ?case using gp yp by blast
  next
    case (step y z)
    then obtain a0 b0 where yp: "y \<in> set p" and zp: "z \<in> set p"
      and a0: "a0 \<in> set y" and b0: "b0 \<in> set z" and edge: "(a0, b0) \<in> set E"
      by (auto simp: Grel_def)
    have gp: "g \<in> set p" using step.IH by simp
    have "(a, b) \<in> (set E)\<^sup>+" if "a \<in> set g" "b \<in> set z" for a b
    proof -
      have "(a, a0) \<in> (set E)\<^sup>+" using step.IH that(1) a0 by blast
      then have "(a, a0) \<in> (set E)\<^sup>*" by (rule trancl_into_rtrancl)
      then show ?thesis using edge within [OF zp b0 that(2)] by (rule link)
    qed
    then show ?case using gp zp by blast
  qed
  have acyc: "acyclic Grel"
  proof (rule acyclicI, intro allI notI)
    fix g
    assume gg: "(g, g) \<in> Grel\<^sup>+"
    then obtain h where gh: "(g, h) \<in> Grel" and hg: "(h, g) \<in> Grel\<^sup>*"
      by (meson tranclD)
    have neq: "g \<noteq> h" using gh by (simp add: Grel_def)
    then have hg': "(h, g) \<in> Grel\<^sup>+" using hg by (auto dest: rtranclD)
    have r1: "g \<in> set p \<and> h \<in> set p \<and> (\<forall>a\<in>set g. \<forall>b\<in>set h. (a, b) \<in> (set E)\<^sup>+)"
      using gh by (intro reach) (rule r_into_trancl)
    have r2: "h \<in> set p \<and> g \<in> set p \<and> (\<forall>a\<in>set h. \<forall>b\<in>set g. (a, b) \<in> (set E)\<^sup>+)"
      using hg' by (rule reach)
    obtain a where a: "a \<in> set g" using nonempty r1 by (cases g) auto
    obtain b where b: "b \<in> set h" using nonempty r1 by (cases h) auto
    have "same_group E a b" using r1 r2 a b by (simp add: same_group_def)
    then have "g = h" using apart r1 a b by blast
    then show False using neq by simp
  qed
  have wf: "wf (Grel\<inverse>)" using fin acyc by (rule finite_acyclic_wf_converse)
  obtain x0 where x0: "x0 \<in> set p" using ne by (cases p) auto
  obtain z where zp: "z \<in> set p" and zmin: "\<And>y. (y, z) \<in> Grel\<inverse> \<Longrightarrow> y \<notin> set p"
    using wfE_min [OF wf x0] by blast
  have "ready E e z"
    unfolding ready_def
  proof (intro ballI, clarify)
    fix a b
    assume ab: "(a, b) \<in> set E" and az: "a \<in> set z" and nb: "b \<notin> set e"
    then obtain h where hp: "h \<in> set p" and bh: "b \<in> set h" using cover by blast
    show "b \<in> set z"
    proof (cases "h = z")
      case True
      then show ?thesis using bh by simp
    next
      case False
      then have "(z, h) \<in> Grel" using zp hp az bh ab by (auto simp: Grel_def)
      then have "h \<notin> set p" using zmin by blast
      then show ?thesis using hp by simp
    qed
  qed
  then show ?thesis using zp by blast
qed

lemma kahn_complete:
  "\<forall>g\<in>set p. \<forall>a\<in>set g. \<forall>b\<in>set g. same_group E a b \<Longrightarrow>
   \<forall>g\<in>set p. \<forall>h\<in>set p. \<forall>a\<in>set g. \<forall>b\<in>set h. same_group E a b \<longrightarrow> g = h \<Longrightarrow>
   \<forall>g\<in>set p. g \<noteq> [] \<Longrightarrow>
   \<forall>(a, b)\<in>set E. b \<in> set e \<or> (\<exists>g\<in>set p. b \<in> set g) \<Longrightarrow>
   mset (kahn E p e) = mset p"
proof (induction E p e rule: kahn.induct)
  case (1 E pending emitted)
  show ?case
  proof (cases "find (ready E emitted) pending")
    case None
    have "pending = []"
    proof (rule ccontr)
      assume "pending \<noteq> []"
      then have "\<exists>g\<in>set pending. ready E emitted g"
        using "1.prems" by (rule kahn_progress)
      then show False using None by (auto simp: find_None_iff)
    qed
    then show ?thesis using None by (simp add: kahn.simps)
  next
    case (Some g)
    let ?p = "remove1 g pending"
    have gin: "g \<in> set pending" using find_Some_mem [OF Some] by simp
    have sub: "\<And>k. k \<in> set ?p \<Longrightarrow> k \<in> set pending"
      using set_remove1_subset [of g pending] by blast
    have s: "\<forall>k\<in>set ?p. \<forall>a\<in>set k. \<forall>b\<in>set k. same_group E a b"
      using "1.prems"(1) sub by blast
    have a: "\<forall>k\<in>set ?p. \<forall>h\<in>set ?p. \<forall>a\<in>set k. \<forall>b\<in>set h. same_group E a b \<longrightarrow> k = h"
    proof (intro ballI impI)
      fix k h a b
      assume "k \<in> set ?p" "h \<in> set ?p" "a \<in> set k" "b \<in> set h" "same_group E a b"
      then show "k = h" using "1.prems"(2) sub by blast
    qed
    have n: "\<forall>k\<in>set ?p. k \<noteq> []" using "1.prems"(3) sub by blast
    have c: "\<forall>(a, b)\<in>set E. b \<in> set (emitted @ g) \<or> (\<exists>k\<in>set ?p. b \<in> set k)"
    proof -
      have "b \<in> set (emitted @ g) \<or> (\<exists>k\<in>set ?p. b \<in> set k)" if ab: "(a, b) \<in> set E" for a b
      proof -
        have "b \<in> set emitted \<or> (\<exists>k\<in>set pending. b \<in> set k)"
          using "1.prems"(4) ab by blast
        then show ?thesis
        proof
          assume "b \<in> set emitted"
          then show ?thesis by simp
        next
          assume "\<exists>k\<in>set pending. b \<in> set k"
          then obtain k where k: "k \<in> set pending" "b \<in> set k" by blast
          show ?thesis
          proof (cases "k = g")
            case True
            then show ?thesis using k(2) by simp
          next
            case False
            then have "k \<in> set ?p" using k(1) by simp
            then show ?thesis using k(2) by blast
          qed
        qed
      qed
      then show ?thesis by blast
    qed
    have IH: "mset (kahn E ?p (emitted @ g)) = mset ?p"
      using s a n c by (rule "1.IH" [OF Some])
    show ?thesis using Some IH gin by (simp add: kahn.simps [of E pending])
  qed
qed

subsection \<open>Building the graph\<close>

lemma same_declaration_names:
  "list_all2 same_declaration ss ss' \<Longrightarrow> map name ss' = map name ss"
  by (induction rule: list_all2_induct) (simp_all add: same_declaration_def)

lemma same_declaration_inputs:
  "list_all2 same_declaration ss ss' \<Longrightarrow>
     (\<Union>A\<in>set ss'. set (inputs A)) = (\<Union>A\<in>set ss. set (inputs A))"
  by (induction rule: list_all2_induct) (simp_all add: same_declaration_def)

lemma same_declaration_outputs:
  "list_all2 same_declaration ss ss' \<Longrightarrow>
     (\<Union>A\<in>set ss'. set (outputs A)) = (\<Union>A\<in>set ss. set (outputs A))"
  by (induction rule: list_all2_induct) (simp_all add: same_declaration_def)

lemma undeclared_reference_sets:
  "undeclared_reference ss =
     (\<not> (\<Union>A\<in>set ss. set (inputs A)) \<subseteq> (\<Union>B\<in>set ss. set (outputs B)))"
  unfolding undeclared_reference_def by blast

lemma same_declaration_reads:
  assumes "list_all2 same_declaration ss ss'" "i < length ss" "j < length ss"
  shows "reads (ss' ! i) (ss' ! j) = reads (ss ! i) (ss ! j)"
proof -
  have "same_declaration (ss ! i) (ss' ! i)" "same_declaration (ss ! j) (ss' ! j)"
    using assms by (simp_all add: list_all2_nthD)
  then show ?thesis by (simp add: same_declaration_def reads_def)
qed

lemma Build_same_declaration:
  assumes "list_all2 same_declaration ss ss'"
  shows "Build ss' = Build ss"
proof -
  have len: "length ss' = length ss" using assms by (simp add: list_all2_lengthD)
  have und: "undeclared_reference ss' = undeclared_reference ss"
    using same_declaration_inputs [OF assms] same_declaration_outputs [OF assms]
    by (simp add: undeclared_reference_sets)
  have ed: "filter (\<lambda>(i, j). reads (ss' ! i) (ss' ! j))
              (List.product [0..<length ss] [0..<length ss])
          = filter (\<lambda>(i, j). reads (ss ! i) (ss ! j))
              (List.product [0..<length ss] [0..<length ss])"
    by (rule filter_cong) (auto simp: same_declaration_reads [OF assms])
  show ?thesis
    using len und ed same_declaration_names [OF assms] by (simp add: Build_def)
qed

lemma Build_graph:
  assumes "Build ss = Inr G"
  shows "sheet_names G = map name ss"
    and "\<forall>(a, b)\<in>set (edges G). a < length ss \<and> b < length ss"
proof -
  have G: "G = \<lparr>sheet_names = map name ss,
                edges = filter (\<lambda>(i, j). reads (ss ! i) (ss ! j))
                          (List.product [0..<length ss] [0..<length ss])\<rparr>"
    using assms by (simp add: Build_def split: if_splits)
  show "sheet_names G = map name ss" by (simp add: G)
  show "\<forall>(a, b)\<in>set (edges G). a < length ss \<and> b < length ss" by (auto simp: G)
qed

lemma linear_groups_components:
  assumes "\<forall>(a, b)\<in>set (edges G). b < length (sheet_names G)"
  shows "mset (linear_groups G)
     = mset (components (edges G) [0..<length (sheet_names G)])"
proof -
  let ?E = "edges G" and ?n = "length (sheet_names G)"
  let ?C = "components ?E [0..<?n]"
  have s: "\<forall>g\<in>set ?C. \<forall>a\<in>set g. \<forall>b\<in>set g. same_group ?E a b"
    using components_same by blast
  have a: "\<forall>g\<in>set ?C. \<forall>h\<in>set ?C. \<forall>a\<in>set g. \<forall>b\<in>set h. same_group ?E a b \<longrightarrow> g = h"
    using components_apart by blast
  have n: "\<forall>g\<in>set ?C. g \<noteq> []" using components_nonempty by blast
  have c: "\<forall>(a, b)\<in>set ?E. b \<in> set [] \<or> (\<exists>g\<in>set ?C. b \<in> set g)"
  proof -
    have "\<exists>g\<in>set ?C. b \<in> set g" if "(a, b) \<in> set ?E" for a b
    proof -
      have "b \<in> set [0..<?n]" using assms that by auto
      then have "b \<in> \<Union> (set ` set ?C)" by (simp only: components_set)
      then show ?thesis by blast
    qed
    then show ?thesis by blast
  qed
  show ?thesis unfolding linear_groups_def using s a n c by (rule kahn_complete)
qed

subsection \<open>Classification\<close>

lemma classify_properties:
  assumes "Build ss = Inr G"
  shows "(\<forall>ss'. list_all2 same_declaration ss ss' \<longrightarrow> Build ss' = Inr G)
    \<and> mset (concat (linear_groups G)) = mset [0..<length ss]
    \<and> (\<forall>g\<in>set (linear_groups G). sorted_wrt (<) g)
    \<and> (\<forall>i<length ss. \<forall>j<length ss.
          (\<exists>g\<in>set (linear_groups G). i \<in> set g \<and> j \<in> set g) = same_group (edges G) i j)
    \<and> (\<forall>pre grp post. linear_groups G = pre @ grp # post \<longrightarrow>
          ready (edges G) (concat pre) grp
          \<and> (\<forall>h\<in>set post. ready (edges G) (concat pre) h \<longrightarrow> hd grp < hd h))
    \<and> linear_order (Classify G) = map (map (\<lambda>i. map name ss ! i)) (linear_groups G)
    \<and> set (circular_groups (Classify G))
        = map (\<lambda>i. map name ss ! i) ` {g \<in> set (linear_groups G). circular (edges G) g}"
proof -
  let ?E = "edges G" and ?n = "length ss"
  let ?C = "components ?E [0..<?n]"
  have names: "sheet_names G = map name ss" using assms by (rule Build_graph(1))
  have len: "length (sheet_names G) = ?n" by (simp add: names)
  have "\<forall>(a, b)\<in>set ?E. a < ?n \<and> b < ?n" using assms by (rule Build_graph(2))
  then have inr: "\<forall>(a, b)\<in>set ?E. b < length (sheet_names G)" unfolding len by blast
  have perm: "mset (linear_groups G) = mset ?C"
    using linear_groups_components [OF inr] unfolding len .
  have sets: "set (linear_groups G) = set ?C" using perm by (rule mset_eq_setD)
  have lin: "linear_groups G = kahn ?E ?C []" by (simp add: linear_groups_def len)
  have srt: "sorted_wrt (<) [0..<?n]" by simp

  have c1: "\<forall>ss'. list_all2 same_declaration ss ss' \<longrightarrow> Build ss' = Inr G"
    using assms by (simp add: Build_same_declaration)
  have c2: "mset (concat (linear_groups G)) = mset [0..<?n]"
    using mset_concat_cong [OF perm] by (simp only: components_mset)
  have c3: "\<forall>g\<in>set (linear_groups G). sorted_wrt (<) g"
    unfolding sets using components_each_sorted [OF srt] by blast
  have c4: "\<forall>i<?n. \<forall>j<?n.
      (\<exists>g\<in>set (linear_groups G). i \<in> set g \<and> j \<in> set g) = same_group ?E i j"
  proof (intro allI impI)
    fix i j
    assume i: "i < ?n" and j: "j < ?n"
    show "(\<exists>g\<in>set (linear_groups G). i \<in> set g \<and> j \<in> set g) = same_group ?E i j"
    proof
      assume "\<exists>g\<in>set (linear_groups G). i \<in> set g \<and> j \<in> set g"
      then obtain g where "g \<in> set ?C" "i \<in> set g" "j \<in> set g" unfolding sets by blast
      then show "same_group ?E i j" by (rule components_same)
    next
      assume sg: "same_group ?E i j"
      have "i \<in> \<Union> (set ` set ?C)" "j \<in> \<Union> (set ` set ?C)"
        using i j by (simp_all only: components_set) simp_all
      then obtain g h where g: "g \<in> set ?C" "i \<in> set g" and h: "h \<in> set ?C" "j \<in> set h"
        by blast
      have "g = h" using g(1) h(1) g(2) h(2) sg by (rule components_apart)
      then show "\<exists>g\<in>set (linear_groups G). i \<in> set g \<and> j \<in> set g"
        unfolding sets using g h by blast
    qed
  qed
  have c5: "\<forall>pre grp post. linear_groups G = pre @ grp # post \<longrightarrow>
          ready ?E (concat pre) grp
          \<and> (\<forall>h\<in>set post. ready ?E (concat pre) h \<longrightarrow> hd grp < hd h)"
  proof (intro allI impI conjI ballI)
    fix pre grp post
    assume split: "linear_groups G = pre @ grp # post"
    then have k: "kahn ?E ?C [] = pre @ grp # post" by (simp add: lin)
    show "ready ?E (concat pre) grp" using kahn_ready [OF k] by simp
    fix h
    assume h: "h \<in> set post" and r: "ready ?E (concat pre) h"
    have s: "sorted_wrt (<) (map hd ?C)" using srt by (rule components_sorted)
    have r': "ready ?E ([] @ concat pre) h" using r by simp
    show "hd grp < hd h" using s k h r' by (rule kahn_tiebreak)
  qed
  have c6: "linear_order (Classify G) = map (map (\<lambda>i. map name ss ! i)) (linear_groups G)"
    by (simp add: Classify_def names)
  have c7: "set (circular_groups (Classify G))
        = map (\<lambda>i. map name ss ! i) ` {g \<in> set (linear_groups G). circular ?E g}"
    unfolding sets by (simp add: Classify_def names len)
  show ?thesis using c1 c2 c3 c4 c5 c6 c7 by (intro conjI)
qed

text \<open>
  C5. For fixed sheet definitions \<^verbatim>\<open>Classify\<close> returns one linear order and one set of
  circular groups: the graph, and with it the result, depends only on the names and on the
  sets of cells read and written, not on how each set is enumerated. The linear order
  places every sheet exactly once, in groups that are the classes of mutual reachability,
  each group after all groups it reads from; and when several groups have no remaining
  unresolved predecessor, the one processed is the one declared first: its first sheet
  precedes, in declaration order, the first sheet of every later group that was ready at
  that point.
\<close>

theorem classify_declaration_order:
  assumes "Build ss = Inr G"
  shows "(\<forall>ss'. list_all2 (\<lambda>A B. name A = name B \<and> set (inputs A) = set (inputs B)
                \<and> set (outputs A) = set (outputs B)) ss ss' \<longrightarrow> Build ss' = Inr G)
    \<and> set (edges G) = {(i, j). i < length ss \<and> j < length ss
                \<and> set (inputs (ss ! i)) \<inter> set (outputs (ss ! j)) \<noteq> {}}
    \<and> mset (concat (linear_groups G)) = mset [0..<length ss]
    \<and> (\<forall>g\<in>set (linear_groups G). sorted_wrt (<) g)
    \<and> (\<forall>i<length ss. \<forall>j<length ss.
          (\<exists>g\<in>set (linear_groups G). i \<in> set g \<and> j \<in> set g)
          = (i = j \<or> (i, j) \<in> (set (edges G))\<^sup>+ \<and> (j, i) \<in> (set (edges G))\<^sup>+))
    \<and> (\<forall>pre grp post. linear_groups G = pre @ grp # post \<longrightarrow>
          (\<forall>(a, b)\<in>set (edges G). a \<in> set grp \<longrightarrow> b \<in> set grp \<or> b \<in> set (concat pre))
          \<and> (\<forall>h\<in>set post.
                (\<forall>(a, b)\<in>set (edges G). a \<in> set h \<longrightarrow> b \<in> set h \<or> b \<in> set (concat pre))
                \<longrightarrow> hd grp < hd h))
    \<and> linear_order (Classify G) = map (map (\<lambda>i. map name ss ! i)) (linear_groups G)
    \<and> set (circular_groups (Classify G))
        = map (\<lambda>i. map name ss ! i)
            ` {g \<in> set (linear_groups G). 1 < length g \<or> (\<exists>i\<in>set g. (i, i) \<in> set (edges G))}"
proof -
  note P = classify_properties [OF assms]
  have sd: "same_declaration = (\<lambda>A B. name A = name B \<and> set (inputs A) = set (inputs B)
                \<and> set (outputs A) = set (outputs B))"
    by (intro ext) (simp add: same_declaration_def)
  have c1: "\<forall>ss'. list_all2 (\<lambda>A B. name A = name B \<and> set (inputs A) = set (inputs B)
                \<and> set (outputs A) = set (outputs B)) ss ss' \<longrightarrow> Build ss' = Inr G"
    using P [THEN conjunct1] unfolding sd .
  have c2: "set (edges G) = {(i, j). i < length ss \<and> j < length ss
                \<and> set (inputs (ss ! i)) \<inter> set (outputs (ss ! j)) \<noteq> {}}"
    using assms by (auto simp: Build_def reads_def split: if_splits)
  have c3: "mset (concat (linear_groups G)) = mset [0..<length ss]"
    using P [THEN conjunct2, THEN conjunct1] .
  have c4: "\<forall>g\<in>set (linear_groups G). sorted_wrt (<) g"
    using P [THEN conjunct2, THEN conjunct2, THEN conjunct1] .
  have c5: "\<forall>i<length ss. \<forall>j<length ss.
          (\<exists>g\<in>set (linear_groups G). i \<in> set g \<and> j \<in> set g)
          = (i = j \<or> (i, j) \<in> (set (edges G))\<^sup>+ \<and> (j, i) \<in> (set (edges G))\<^sup>+)"
    using P [THEN conjunct2, THEN conjunct2, THEN conjunct2, THEN conjunct1]
    unfolding same_group_def .
  have c6: "\<forall>pre grp post. linear_groups G = pre @ grp # post \<longrightarrow>
          (\<forall>(a, b)\<in>set (edges G). a \<in> set grp \<longrightarrow> b \<in> set grp \<or> b \<in> set (concat pre))
          \<and> (\<forall>h\<in>set post.
                (\<forall>(a, b)\<in>set (edges G). a \<in> set h \<longrightarrow> b \<in> set h \<or> b \<in> set (concat pre))
                \<longrightarrow> hd grp < hd h)"
    using P [THEN conjunct2, THEN conjunct2, THEN conjunct2, THEN conjunct2, THEN conjunct1]
    unfolding ready_def .
  have c7: "linear_order (Classify G) = map (map (\<lambda>i. map name ss ! i)) (linear_groups G)"
    using P [THEN conjunct2, THEN conjunct2, THEN conjunct2, THEN conjunct2, THEN conjunct2,
        THEN conjunct1] .
  have c8: "set (circular_groups (Classify G))
        = map (\<lambda>i. map name ss ! i)
            ` {g \<in> set (linear_groups G). 1 < length g \<or> (\<exists>i\<in>set g. (i, i) \<in> set (edges G))}"
    using P [THEN conjunct2, THEN conjunct2, THEN conjunct2, THEN conjunct2, THEN conjunct2,
        THEN conjunct2]
    unfolding circular_def .
  show ?thesis using c1 c2 c3 c4 c5 c6 c7 c8 by (intro conjI)
qed

theorem classify_declaration_order_witness:
  "Build example_sheets = Inr example_graph
   \<and> list_all2 (\<lambda>A B. name A = name B \<and> set (inputs A) = set (inputs B)
         \<and> set (outputs A) = set (outputs B)) example_sheets example_sheets_reordered
   \<and> Build example_sheets_reordered = Inr example_graph
   \<and> linear_groups example_graph = [] @ [2] # [[0, 1], [3]]
   \<and> ready (edges example_graph) (concat []) [3]
   \<and> ready (edges example_graph) (concat []) [2]
   \<and> hd [2] < hd [3::nat]
   \<and> (0::nat, 1::nat) \<in> (set (edges example_graph))\<^sup>+
   \<and> linear_order (Classify example_graph)
       = [[''Revenue''], [''Debt'', ''Equity''], [''Costs'']]
   \<and> circular_groups (Classify example_graph) = [[''Debt'', ''Equity'']]"
proof -
  have b: "Build example_sheets = Inr example_graph" by code_simp
  have e: "list_all2 (\<lambda>A B. name A = name B \<and> set (inputs A) = set (inputs B)
         \<and> set (outputs A) = set (outputs B)) example_sheets example_sheets_reordered"
    by code_simp
  have l: "linear_groups example_graph = [] @ [2] # [[0, 1], [3]]" by code_simp
  have r: "ready (edges example_graph) (concat []) [3]" by code_simp
  have c: "Classify example_graph =
     \<lparr>linear_order = [[''Revenue''], [''Debt'', ''Equity''], [''Costs'']],
      circular_groups = [[''Debt'', ''Equity'']]\<rparr>" by code_simp
  note T = classify_declaration_order [OF b]
  have b': "Build example_sheets_reordered = Inr example_graph"
    using T [THEN conjunct1, THEN spec, THEN mp, OF e] .
  have step: "ready (edges example_graph) (concat []) [2]
     \<and> (\<forall>h\<in>set [[0, 1], [3]]. ready (edges example_graph) (concat []) h \<longrightarrow> hd [2] < hd h)"
    using T [THEN conjunct2, THEN conjunct2, THEN conjunct2, THEN conjunct2, THEN conjunct2,
        THEN conjunct1, THEN spec, THEN spec, THEN spec, THEN mp, OF l]
    unfolding ready_def .
  then have t: "hd [2] < hd [3::nat]" using r by simp
  have "length example_sheets = 4" by (simp add: example_sheets_def)
  then have "(\<exists>g\<in>set (linear_groups example_graph). 0 \<in> set g \<and> 1 \<in> set g)
      = (0 = (1::nat) \<or> (0, 1) \<in> (set (edges example_graph))\<^sup>+
           \<and> (1, 0) \<in> (set (edges example_graph))\<^sup>+)"
    using T [THEN conjunct2, THEN conjunct2, THEN conjunct2, THEN conjunct2, THEN conjunct1,
        THEN spec, THEN mp, THEN spec, THEN mp, of 0 1] by simp
  then have g: "(0::nat, 1::nat) \<in> (set (edges example_graph))\<^sup>+" unfolding l by simp
  have c1: "linear_order (Classify example_graph)
       = [[''Revenue''], [''Debt'', ''Equity''], [''Costs'']]"
    and c2: "circular_groups (Classify example_graph) = [[''Debt'', ''Equity'']]"
    by (simp_all add: c)
  have s2: "ready (edges example_graph) (concat []) [2]" using step by (rule conjunct1)
  show ?thesis using b e b' l r s2 t g c1 c2 by (intro conjI)
qed

end
